theory Spec2Isabelle
  imports Complex_Main "HOL-Library.AList" "HOL-Library.Char_ord" "HOL-Library.List_Lexorder"
begin

section \<open>Data model of the inventory manager\<close>

text \<open>
  The embedding follows the class \<^verbatim>\<open>InventoryManager\<close> (inventory.mjs) and
  \<^verbatim>\<open>getMerkleRoot\<close> (miner.mjs).

  \<^item> A JavaScript \<^verbatim>\<open>Map\<close> is an association list in insertion order:
    \<^verbatim>\<open>m.set(k, v)\<close> is \<open>AList.update k v m\<close> (an existing key keeps its
    place, a new key goes to the end), \<^verbatim>\<open>m.get(k)\<close> is \<open>map_of m k\<close>,
    \<^verbatim>\<open>m.delete(k)\<close> is \<open>AList.delete k m\<close>.
  \<^item> The \<^verbatim>\<open>Set\<close> of seen messages is a set of JavaScript values: it holds block
    hashes, which are strings, and transaction ids, which are whatever the submitted JSON
    gave.
  \<^item> A transaction submitted to \<^verbatim>\<open>addTransaction\<close> is parsed JSON, so each of its
    fields is a JavaScript value \<open>jsval\<close>, \<open>JUndefined\<close> when the field is absent.
  \<^item> In blocks, strings are \<open>string\<close>; an absent or empty string field is \<open>[]\<close>, which
    is falsy in JavaScript. Amounts of block transactions, balances and heights are integers;
    \<open>0\<close> is falsy.
  \<^item> SHA-256 and \<^verbatim>\<open>JSON.stringify\<close> are parameters \<open>H\<close> and \<open>J\<close> of the
    model; every general theorem holds for all of them.
  \<^item> Logging and the HTTP propagation to peers do not touch the inventory and are left out.
\<close>

subsection \<open>JavaScript values\<close>

text \<open>
  A JavaScript number: not-a-number, a finite number or an infinity. \<open>jsnum_lt\<close> and
  \<open>jsnum_le\<close> are the comparisons \<^verbatim>\<open><\<close> and \<^verbatim>\<open><=\<close> on numbers, which are
  false as soon as one side is not-a-number.
\<close>

datatype jsnum = NaN | Fin rat | PlusInf | MinusInf

fun jsnum_lt :: "jsnum \<Rightarrow> jsnum \<Rightarrow> bool" where
  "jsnum_lt (Fin x) (Fin y) = (x < y)"
| "jsnum_lt (Fin x) PlusInf = True"
| "jsnum_lt MinusInf (Fin y) = True"
| "jsnum_lt MinusInf PlusInf = True"
| "jsnum_lt a b = False"

definition jsnum_le :: "jsnum \<Rightarrow> jsnum \<Rightarrow> bool" where
  "jsnum_le a b = (a \<noteq> NaN \<and> b \<noteq> NaN \<and> (a = b \<or> jsnum_lt a b))"

text \<open>
  A value as \<^verbatim>\<open>JSON.parse\<close> gives it, or \<^verbatim>\<open>undefined\<close> for an absent field.
  \<open>truthy\<close> is the test that \<^verbatim>\<open>!v\<close>, \<^verbatim>\<open>&&\<close> and \<^verbatim>\<open>||\<close> make.
  \<open>toNumber\<close> is the conversion that \<^verbatim>\<open><\<close> and \<^verbatim>\<open><=\<close> apply to an operand
  compared with a number; on strings, arrays and objects it is the parameter \<open>N\<close> of the
  model (ECMAScript reads a string as a numeric literal and gives not-a-number for every
  other text).
\<close>

datatype jsval =
    JUndefined
  | JNull
  | JBool bool
  | JNum jsnum
  | JStr string
  | JArr "jsval list"
  | JObj "(string \<times> jsval) list"

fun truthy :: "jsval \<Rightarrow> bool" where
  "truthy JUndefined = False"
| "truthy JNull = False"
| "truthy (JBool b) = b"
| "truthy (JNum n) = (n \<noteq> Fin 0 \<and> n \<noteq> NaN)"
| "truthy (JStr s) = (s \<noteq> [])"
| "truthy (JArr xs) = True"
| "truthy (JObj kvs) = True"

fun toNumber :: "(jsval \<Rightarrow> jsnum) \<Rightarrow> jsval \<Rightarrow> jsnum" where
  "toNumber N JUndefined = NaN"
| "toNumber N JNull = Fin 0"
| "toNumber N (JBool b) = Fin (if b then 1 else 0)"
| "toNumber N (JNum n) = n"
| "toNumber N v = N v"

text \<open>
  Keys of a \<^verbatim>\<open>Set\<close> or \<^verbatim>\<open>Map\<close>: primitive values are compared by value,
  arrays and objects by identity. Every key the node looks up or stores comes from freshly
  parsed JSON, so an array or object is never found, and storing one adds an entry.
\<close>

fun primitive :: "jsval \<Rightarrow> bool" where
  "primitive (JArr xs) = False"
| "primitive (JObj kvs) = False"
| "primitive v = True"

definition set_has :: "jsval set \<Rightarrow> jsval \<Rightarrow> bool" where
  "set_has S k = (primitive k \<and> k \<in> S)"

definition map_set :: "jsval \<Rightarrow> 'v \<Rightarrow> (jsval \<times> 'v) list \<Rightarrow> (jsval \<times> 'v) list" where
  "map_set k v m = (if primitive k then AList.update k v m else m @ [(k, v)])"

subsection \<open>Transactions, blocks and the inventory\<close>

text \<open>
  The body of a transaction submitted to \<^verbatim>\<open>addTransaction\<close> (from
  \<^verbatim>\<open>POST /inv\<close>, a sync or the bootstrap): its fields \<^verbatim>\<open>id\<close>,
  \<^verbatim>\<open>sender\<close>, \<^verbatim>\<open>receiver\<close> and \<^verbatim>\<open>amount\<close>. The code reads no other
  property of it. The body is an object, or a primitive other than \<^verbatim>\<open>null\<close>, all of
  whose fields are absent; reading a field of \<^verbatim>\<open>null\<close> raises before any state is
  touched.
\<close>

record tx_req =
  req_id :: jsval
  req_sender :: jsval
  req_receiver :: jsval
  req_amount :: jsval

text \<open>A transaction inside a block.\<close>

record tx =
  txid :: string
  sender :: string
  receiver :: string
  amount :: int
  tx_timestamp :: string

text \<open>
  A block as received: \<open>transactions\<close> is \<open>None\<close> when the field is absent or not an
  array. \<open>block_body\<close> is the block with its \<^verbatim>\<open>hash\<close> field omitted
  (\<^verbatim>\<open>const { hash, ...blockWithoutHash } = block\<close>).
\<close>

record block_body =
  isGenesis :: bool
  previousHash :: string
  timestamp :: string
  nonce :: string
  creator :: string
  merkleRoot :: string
  count :: int
  transactions :: "tx list option"

record block = block_body +
  hash :: string

record inventory =
  blocks :: "(string \<times> block) list"
  pending :: "(jsval \<times> tx_req) list"
  seenMessages :: "jsval set"
  balances :: "(string \<times> int) list"
  genesisCreated :: bool
  blockchainHead :: "string option"
  blockHeights :: "(string \<times> int) list"

text \<open>The constructor. The field \<^verbatim>\<open>this.transactions\<close> is the pending pool \<open>pending\<close>.\<close>

definition init :: inventory where
  "init = \<lparr> blocks = [], pending = [], seenMessages = {}, balances = [],
            genesisCreated = False, blockchainHead = None, blockHeights = [] \<rparr>"

text \<open>\<^verbatim>\<open>m.get(k) || d\<close>: the default is taken for a missing key and for the value 0.\<close>

definition get_or :: "(string \<times> int) list \<Rightarrow> string \<Rightarrow> int \<Rightarrow> int" where
  "get_or m k d = (case map_of m k of None \<Rightarrow> d | Some v \<Rightarrow> if v = 0 then d else v)"

definition getBalance :: "inventory \<Rightarrow> string \<Rightarrow> int" where
  "getBalance st nodeId = get_or (balances st) nodeId 0"

section \<open>Transaction admission\<close>

text \<open>
  \<^verbatim>\<open>this.balances.get(tx.sender) || 0\<close> for a sender taken from a submitted
  transaction: the keys of the balances are strings, so any other value finds nothing.
\<close>

definition balanceOf :: "(string \<times> int) list \<Rightarrow> jsval \<Rightarrow> int" where
  "balanceOf m k = (case k of JStr s \<Rightarrow> get_or m s 0 | _ \<Rightarrow> 0)"

definition validateTransaction :: "(jsval \<Rightarrow> jsnum) \<Rightarrow> inventory \<Rightarrow> tx_req \<Rightarrow> bool" where
  "validateTransaction N st t =
     (if \<not> truthy (req_sender t) \<or> \<not> truthy (req_receiver t) \<or> \<not> truthy (req_amount t)
         \<or> jsnum_le (toNumber N (req_amount t)) (Fin 0)
      then False
      else let senderBalance = balanceOf (balances st) (req_sender t) in
        if jsnum_lt (Fin (of_int senderBalance)) (toNumber N (req_amount t)) then False else True)"

definition addTransaction :: "(jsval \<Rightarrow> jsnum) \<Rightarrow> inventory \<Rightarrow> tx_req \<Rightarrow> bool \<times> inventory" where
  "addTransaction N st t =
     (if set_has (seenMessages st) (req_id t) then (False, st)
      else if \<not> validateTransaction N st t then (False, st)
      else (True, st\<lparr> pending := map_set (req_id t) t (pending st),
                      seenMessages := insert (req_id t) (seenMessages st) \<rparr>))"

section \<open>Block hashing and validation\<close>

text \<open>
  \<^verbatim>\<open>calculateBlockHash\<close>: SHA-256 of the serialised block without its hash field,
  concatenated with the nonce (\<^verbatim>\<open>block.nonce || "0"\<close>).
\<close>

definition calculateBlockHash :: "(string \<Rightarrow> string) \<Rightarrow> (block_body \<Rightarrow> string) \<Rightarrow> block \<Rightarrow> string" where
  "calculateBlockHash H J b =
     (let blockString = J (block_body.truncate b);
          nonce' = (if nonce b = [] then ''0'' else nonce b)
      in H (blockString @ nonce'))"

definition startsWith :: "string \<Rightarrow> string \<Rightarrow> bool" where
  "startsWith s p = (take (length p) s = p)"

definition validateBlockStructure :: "inventory \<Rightarrow> block \<Rightarrow> string \<Rightarrow> bool" where
  "validateBlockStructure st b calculatedHash =
     (let hashMeetsDifficulty = startsWith calculatedHash ''0000'' in
      if \<not> hashMeetsDifficulty then False
      else let previousBlockExists = (map_of (blocks st) (previousHash b) \<noteq> None) in
        if \<not> previousBlockExists then True
        else True)"

text \<open>The loop of \<^verbatim>\<open>validateBlockTransactions\<close> over a shadow copy of the balances.\<close>

fun validateTxLoop :: "(string \<times> int) list \<Rightarrow> tx list \<Rightarrow> bool" where
  "validateTxLoop tempBalances [] = True"
| "validateTxLoop tempBalances (t # ts) =
     (if txid t = [] \<or> sender t = [] \<or> receiver t = [] \<or> amount t = 0 \<or> amount t \<le> 0
      then False
      else let senderBalance = get_or tempBalances (sender t) 0 in
        if senderBalance < amount t then False
        else let tb1 = AList.update (sender t) (senderBalance - amount t) tempBalances;
                 receiverBalance = get_or tb1 (receiver t) 0;
                 tb2 = AList.update (receiver t) (receiverBalance + amount t) tb1
             in validateTxLoop tb2 ts)"

definition validateBlockTransactions :: "inventory \<Rightarrow> tx list option \<Rightarrow> bool" where
  "validateBlockTransactions st txs =
     (case txs of None \<Rightarrow> False | Some ts \<Rightarrow> validateTxLoop (balances st) ts)"

section \<open>Applying and rolling back transactions\<close>

text \<open>One iteration of the loop of \<^verbatim>\<open>processBlockTransactions\<close>.\<close>

definition processTx :: "inventory \<Rightarrow> tx \<Rightarrow> inventory" where
  "processTx st t =
     (if sender t = [] \<or> receiver t = [] \<or> amount t = 0 then st
      else let senderBalance = get_or (balances st) (sender t) 0;
               bal1 = AList.update (sender t) (senderBalance - amount t) (balances st);
               receiverBalance = get_or bal1 (receiver t) 0;
               bal2 = AList.update (receiver t) (receiverBalance + amount t) bal1;
               pend = (if txid t \<noteq> [] \<and> map_of (pending st) (JStr (txid t)) \<noteq> None
                       then AList.delete (JStr (txid t)) (pending st) else pending st)
           in st\<lparr> balances := bal2, pending := pend \<rparr>)"

definition processBlockTransactions :: "inventory \<Rightarrow> tx list option \<Rightarrow> inventory" where
  "processBlockTransactions st txs =
     (case txs of None \<Rightarrow> st
      | Some ts \<Rightarrow> if length ts = 0 then st else foldl processTx st ts)"

text \<open>
  One iteration of the inner roll-back loop of \<^verbatim>\<open>handleChainReorganization\<close>: both
  balances are read before either is written.
\<close>

definition rollbackTx :: "inventory \<Rightarrow> tx \<Rightarrow> inventory" where
  "rollbackTx st t =
     (if sender t \<noteq> [] \<and> receiver t \<noteq> [] \<and> amount t \<noteq> 0
      then let senderBalance = get_or (balances st) (sender t) 0;
               receiverBalance = get_or (balances st) (receiver t) 0;
               newSenderBalance = senderBalance + amount t;
               bal1 = AList.update (sender t) newSenderBalance (balances st);
               newReceiverBalance = receiverBalance - amount t;
               bal2 = AList.update (receiver t) newReceiverBalance bal1
           in st\<lparr> balances := bal2 \<rparr>
      else st)"

definition rollbackBlock :: "inventory \<Rightarrow> string \<Rightarrow> inventory" where
  "rollbackBlock st blockHash =
     (case map_of (blocks st) blockHash of None \<Rightarrow> st
      | Some b \<Rightarrow> (case transactions b of None \<Rightarrow> st | Some ts \<Rightarrow> foldl rollbackTx st ts))"

definition applyBlock :: "inventory \<Rightarrow> string \<Rightarrow> inventory" where
  "applyBlock st blockHash =
     (case map_of (blocks st) blockHash of None \<Rightarrow> st
      | Some b \<Rightarrow> (case transactions b of None \<Rightarrow> st
                   | Some ts \<Rightarrow> processBlockTransactions st (Some ts)))"

section \<open>Chains and reorganisation\<close>

text \<open>
  \<^verbatim>\<open>getChainToBlock\<close>: walk \<^verbatim>\<open>previousHash\<close> links for at most
  \<^verbatim>\<open>maxIterations\<close> steps, putting each hash in front of the chain.
\<close>

fun getChainLoop :: "(string \<times> block) list \<Rightarrow> nat \<Rightarrow> string \<Rightarrow> string list \<Rightarrow> string list" where
  "getChainLoop bs 0 currentHash chain = chain"
| "getChainLoop bs (Suc maxIterations) currentHash chain =
     (if currentHash = [] then chain
      else case map_of bs currentHash of None \<Rightarrow> chain
        | Some b \<Rightarrow>
            if isGenesis b then currentHash # chain
            else getChainLoop bs maxIterations (previousHash b) (currentHash # chain))"

definition getChainToBlock :: "inventory \<Rightarrow> string \<Rightarrow> string list" where
  "getChainToBlock st blockHash = getChainLoop (blocks st) 1000 blockHash []"

function commonAncestorLoop :: "string list \<Rightarrow> string list \<Rightarrow> nat \<Rightarrow> nat" where
  "commonAncestorLoop oldChain newChain commonAncestorIndex =
     (if commonAncestorIndex < length oldChain \<and> commonAncestorIndex < length newChain
         \<and> oldChain ! commonAncestorIndex = newChain ! commonAncestorIndex
      then commonAncestorLoop oldChain newChain (commonAncestorIndex + 1)
      else commonAncestorIndex)"
  by pat_completeness auto
termination
  by (relation "measure (\<lambda>(oldChain, newChain, i). length oldChain - i)") auto

declare commonAncestorLoop.simps [simp del]

definition handleChainReorganization :: "inventory \<Rightarrow> string \<Rightarrow> string \<Rightarrow> inventory" where
  "handleChainReorganization st oldHead newHead =
     (let oldChain = getChainToBlock st oldHead;
          newChain = getChainToBlock st newHead;
          commonAncestorIndex = commonAncestorLoop oldChain newChain 0;
          blocksToRollback = rev (drop commonAncestorIndex oldChain);
          blocksToApply = drop commonAncestorIndex newChain;
          st1 = foldl rollbackBlock st blocksToRollback
      in foldl applyBlock st1 blocksToApply)"

text \<open>
  \<^verbatim>\<open>applyConsensusRules\<close>. The head is falsy when it is \<^verbatim>\<open>null\<close> or the empty
  string. Hashes are compared as JavaScript compares strings, lexicographically. The second
  argument \<^verbatim>\<open>newBlock\<close> of the source and its loop that prints the chain of the new
  block are only used for logging.
\<close>

definition applyConsensusRules :: "inventory \<Rightarrow> string \<Rightarrow> bool \<times> inventory" where
  "applyConsensusRules st newBlockHash =
     (case blockchainHead st of
        None \<Rightarrow> (True, st\<lparr> blockchainHead := Some newBlockHash \<rparr>)
      | Some head \<Rightarrow>
          if head = [] then (True, st\<lparr> blockchainHead := Some newBlockHash \<rparr>)
          else let currentHeadHeight = get_or (blockHeights st) head 0;
                   newBlockHeight = get_or (blockHeights st) newBlockHash 0
               in if newBlockHeight > currentHeadHeight
                  then (True, (handleChainReorganization st head newBlockHash)
                                \<lparr> blockchainHead := Some newBlockHash \<rparr>)
                  else if newBlockHeight = currentHeadHeight \<and> newBlockHash < head
                  then (True, (handleChainReorganization st head newBlockHash)
                                \<lparr> blockchainHead := Some newBlockHash \<rparr>)
                  else (False, st))"

section \<open>Adding blocks\<close>

definition addBlock :: "(string \<Rightarrow> string) \<Rightarrow> (block_body \<Rightarrow> string) \<Rightarrow> inventory \<Rightarrow> block \<Rightarrow> bool \<times> inventory" where
  "addBlock H J st b =
     (let originalBlockHash = hash b;
          calculatedHash = calculateBlockHash H J b;
          blockHash = (if originalBlockHash \<noteq> [] then originalBlockHash else calculatedHash)
      in if JStr blockHash \<in> seenMessages st \<or> JStr calculatedHash \<in> seenMessages st
         then (False, st)
         else if isGenesis b then
           (let blockWithHash = b\<lparr> hash := blockHash \<rparr>;
                st1 = st\<lparr> blocks := AList.update blockHash blockWithHash (blocks st),
                          seenMessages := insert (JStr blockHash) (seenMessages st),
                          genesisCreated := True,
                          blockHeights := AList.update blockHash 0 (blockHeights st),
                          blockchainHead := Some blockHash \<rparr>;
                st2 = (if creator b \<noteq> []
                       then st1\<lparr> balances := AList.update (creator b) 100 (balances st1) \<rparr>
                       else st1)
            in (True, st2))
         else if \<not> validateBlockStructure st b calculatedHash then (False, st)
         else (case transactions b of
             None \<Rightarrow> (False, st)
           | Some ts \<Rightarrow>
               if \<not> validateBlockTransactions st (Some ts) then (False, st)
               else
                 (let blockWithHash = b\<lparr> hash := blockHash \<rparr>;
                      st1 = st\<lparr> blocks := AList.update blockHash blockWithHash (blocks st),
                                seenMessages := insert (JStr blockHash) (seenMessages st) \<rparr>;
                      prevBlockHeight = get_or (blockHeights st1) (previousHash b) (- 1);
                      st2 = (if prevBlockHeight = - 1
                             then st1\<lparr> blockHeights := AList.update blockHash 1 (blockHeights st1) \<rparr>
                             else st1\<lparr> blockHeights :=
                                        AList.update blockHash (prevBlockHeight + 1) (blockHeights st1) \<rparr>);
                      st3 = processBlockTransactions st2 (Some ts);
                      st4 = snd (applyConsensusRules st3 blockHash)
                  in (True, st4))))"

text \<open>
  \<^verbatim>\<open>createGenesisBlock\<close>; the time stamp \<^verbatim>\<open>new Date().toISOString()\<close> is an
  input.
\<close>

definition createGenesisBlock :: "(string \<Rightarrow> string) \<Rightarrow> (block_body \<Rightarrow> string) \<Rightarrow> inventory \<Rightarrow> string \<Rightarrow> string \<Rightarrow> block option \<times> inventory" where
  "createGenesisBlock H J st nodeId now =
     (if genesisCreated st \<or> length (blocks st) > 0 then (None, st)
      else let initialBalance = 100;
               genesisBlock = \<lparr> isGenesis = True, previousHash = replicate 64 CHR ''0'',
                                timestamp = now, nonce = ''0'', creator = nodeId,
                                merkleRoot = [], count = 0, transactions = Some [],
                                hash = [] \<rparr>;
               genesisHash = calculateBlockHash H J genesisBlock;
               genesisBlock' = genesisBlock\<lparr> hash := genesisHash \<rparr>
           in (Some genesisBlock',
               st\<lparr> blocks := AList.update genesisHash genesisBlock' (blocks st),
                   seenMessages := insert (JStr genesisHash) (seenMessages st),
                   genesisCreated := True,
                   blockHeights := AList.update genesisHash 0 (blockHeights st),
                   blockchainHead := Some genesisHash,
                   balances := AList.update nodeId initialBalance (balances st) \<rparr>))"

section \<open>Inventory synchronisation\<close>

text \<open>
  The state changes of \<^verbatim>\<open>syncInventoryWithPeers\<close>: the callback run on each
  transaction of a peer's inventory, and the callback run on each block a peer returns for
  \<^verbatim>\<open>/getblocks?hash=blockId\<close>, fetched only for an id that is neither stored nor seen.
\<close>

definition syncTransaction :: "inventory \<Rightarrow> tx_req \<Rightarrow> inventory" where
  "syncTransaction st t =
     (if truthy (req_id t) \<and> \<not> set_has (seenMessages st) (req_id t)
      then st\<lparr> pending := map_set (req_id t) t (pending st),
               seenMessages := insert (req_id t) (seenMessages st) \<rparr>
      else st)"

definition syncBlock :: "inventory \<Rightarrow> block \<Rightarrow> inventory" where
  "syncBlock st b =
     (if JStr (hash b) \<notin> seenMessages st
      then st\<lparr> blocks := AList.update (hash b) b (blocks st),
               seenMessages := insert (JStr (hash b)) (seenMessages st) \<rparr>
      else st)"

definition syncFetchedBlocks :: "inventory \<Rightarrow> string \<Rightarrow> block list \<Rightarrow> inventory" where
  "syncFetchedBlocks st blockId fetched =
     (if map_of (blocks st) blockId = None \<and> JStr blockId \<notin> seenMessages st
      then foldl syncBlock st fetched
      else st)"

section \<open>Merkle root (miner.mjs)\<close>

text \<open>
  \<^verbatim>\<open>xs[i]\<close> on an array of strings, as \<^verbatim>\<open>getMerkleRoot\<close> uses it: an index out of range
  gives \<^verbatim>\<open>undefined\<close>, which string concatenation renders as the text "undefined".
\<close>

definition js_at :: "string list \<Rightarrow> nat \<Rightarrow> string" where
  "js_at xs i = (if i < length xs then xs ! i else ''undefined'')"

text \<open>The inner \<^verbatim>\<open>for (let i = 0; i < allTxsHashes.length; i += 2)\<close> loop.\<close>

function pairLoop :: "(string \<Rightarrow> string) \<Rightarrow> string list \<Rightarrow> nat \<Rightarrow> string list \<Rightarrow> string list" where
  "pairLoop H allTxsHashes i newHashes =
     (if i < length allTxsHashes
      then let combined = js_at allTxsHashes i @ js_at allTxsHashes (i + 1)
           in pairLoop H allTxsHashes (i + 2) (newHashes @ [H combined])
      else newHashes)"
  by pat_completeness auto
termination
  by (relation "measure (\<lambda>(H, allTxsHashes, i, newHashes). length allTxsHashes - i)") auto

declare pairLoop.simps [simp del]

text \<open>The outer \<^verbatim>\<open>while (allTxsHashes.length > 1)\<close> loop.\<close>

function merkleLoop :: "(string \<Rightarrow> string) \<Rightarrow> string list \<Rightarrow> string list" where
  "merkleLoop H allTxsHashes =
     (if length allTxsHashes > 1
      then let padded = (if length allTxsHashes mod 2 \<noteq> 0
                         then allTxsHashes @ [js_at allTxsHashes (length allTxsHashes - 1)]
                         else allTxsHashes)
           in merkleLoop H (pairLoop H padded 0 [])
      else allTxsHashes)"
  by pat_completeness auto
termination
proof (relation "measure (\<lambda>(H, allTxsHashes). length allTxsHashes)")
  show "wf (measure (\<lambda>(H, allTxsHashes). length allTxsHashes))" by simp
next
  fix H :: "string \<Rightarrow> string" and allTxsHashes padded :: "string list"
  assume big: "1 < length allTxsHashes"
    and pad: "padded = (if length allTxsHashes mod 2 \<noteq> 0
                        then allTxsHashes @ [js_at allTxsHashes (length allTxsHashes - 1)]
                        else allTxsHashes)"
  have len: "length (pairLoop H hs i acc) = length acc + (length hs - i + 1) div 2"
    for hs i acc
  proof (induction H hs i acc rule: pairLoop.induct)
    case (1 H hs i acc)
    show ?case
    proof (cases "i < length hs")
      case True
      then have "(length hs - i + 1) div 2 = Suc ((length hs - (i + 2) + 1) div 2)" by arith
      with True "1.IH" [OF True refl] show ?thesis
        by (subst pairLoop.simps) (simp add: Let_def)
    next
      case False
      then show ?thesis by (subst pairLoop.simps) simp
    qed
  qed
  have "length (pairLoop H padded 0 []) < length allTxsHashes"
    using big by (simp add: len pad) arith
  then show "((H, pairLoop H padded 0 []), (H, allTxsHashes))
               \<in> measure (\<lambda>(H, allTxsHashes). length allTxsHashes)" by simp
qed

declare merkleLoop.simps [simp del]

definition getMerkleRoot :: "(string \<Rightarrow> string) \<Rightarrow> (tx \<Rightarrow> string) \<Rightarrow> tx list \<Rightarrow> string" where
  "getMerkleRoot H Jt txs =
     (if length txs = 0 then []
      else let allTxsHashes = map (\<lambda>t. H (Jt t)) txs
           in js_at (merkleLoop H allTxsHashes) 0)"

section \<open>The Merkle root as the specification words it\<close>

text \<open>
  The Merkle root in the words of the specification: hash each transaction into a level of
  leaves; while the level has more than one element, duplicate the last one if the length
  is odd, pair adjacent elements and hash their concatenation; the final element is the
  root.
\<close>

fun hashPairs :: "(string \<Rightarrow> string) \<Rightarrow> string list \<Rightarrow> string list" where
  "hashPairs H (a # b # rest) = H (a @ b) # hashPairs H rest"
| "hashPairs H rest = []"

definition nextLevel :: "(string \<Rightarrow> string) \<Rightarrow> string list \<Rightarrow> string list" where
  "nextLevel H level = hashPairs H (if odd (length level) then level @ [last level] else level)"

function reduceLevels :: "(string \<Rightarrow> string) \<Rightarrow> string list \<Rightarrow> string" where
  "reduceLevels H level =
     (case level of [] \<Rightarrow> [] | [final] \<Rightarrow> final | a # b # rest \<Rightarrow> reduceLevels H (nextLevel H level))"
  by pat_completeness auto
termination
proof -
  have len: "length (hashPairs H xs) = length xs div 2" for H xs
    by (induction H xs rule: hashPairs.induct) simp_all
  have dec: "length (nextLevel H (a # b # rest)) < Suc (Suc (length rest))" for H a b rest
    unfolding nextLevel_def by (auto simp: len elim!: oddE)
  show ?thesis
    by (relation "measure (\<lambda>(H, level). length level)") (auto simp: dec)
qed

declare reduceLevels.simps [simp del]

definition merkleRoot_spec :: "(string \<Rightarrow> string) \<Rightarrow> (tx \<Rightarrow> string) \<Rightarrow> tx list \<Rightarrow> string" where
  "merkleRoot_spec H Jt txs = (if txs = [] then [] else reduceLevels H (map (\<lambda>t. H (Jt t)) txs))"

section \<open>Auxiliary notions for the statements\<close>

text \<open>
  \<open>chosenHash\<close> is the identity \<^verbatim>\<open>blockHash = originalBlockHash || calculatedHash\<close>
  under which \<open>addBlock\<close> stores a block. \<open>same_chain\<close> relates two states that
  differ at most in balances and pending pool. \<open>reachable\<close> collects the states the
  node gets into from the constructor by its state-changing entry points.
\<close>

definition chosenHash :: "(string \<Rightarrow> string) \<Rightarrow> (block_body \<Rightarrow> string) \<Rightarrow> block \<Rightarrow> string" where
  "chosenHash H J b = (if hash b \<noteq> [] then hash b else calculateBlockHash H J b)"

definition same_chain :: "inventory \<Rightarrow> inventory \<Rightarrow> bool" where
  "same_chain st st' \<longleftrightarrow>
     blocks st' = blocks st \<and> seenMessages st' = seenMessages st
     \<and> blockHeights st' = blockHeights st \<and> blockchainHead st' = blockchainHead st
     \<and> genesisCreated st' = genesisCreated st"

inductive reachable :: "(string \<Rightarrow> string) \<Rightarrow> (block_body \<Rightarrow> string) \<Rightarrow> inventory \<Rightarrow> bool"
  for H :: "string \<Rightarrow> string" and J :: "block_body \<Rightarrow> string" where
  r_init: "reachable H J init"
| r_addBlock: "reachable H J st \<Longrightarrow> reachable H J (snd (addBlock H J st b))"
| r_addTransaction: "reachable H J st \<Longrightarrow> reachable H J (snd (addTransaction N st t))"
| r_createGenesisBlock:
    "reachable H J st \<Longrightarrow> reachable H J (snd (createGenesisBlock H J st nodeId now))"
| r_syncTransaction: "reachable H J st \<Longrightarrow> reachable H J (syncTransaction st t)"
| r_syncFetchedBlocks: "reachable H J st \<Longrightarrow> reachable H J (syncFetchedBlocks st blockId fetched)"

definition head_seen :: "inventory \<Rightarrow> bool" where
  "head_seen st =
     (case blockchainHead st of None \<Rightarrow> True | Some h \<Rightarrow> JStr h \<in> seenMessages st)"

text \<open>
  \<open>storeBlock\<close> is what the accepted regular path of \<open>addBlock\<close> writes before it
  processes the transactions: the block under its identity, the seen mark and the height.
\<close>

definition storeBlock :: "inventory \<Rightarrow> block \<Rightarrow> string \<Rightarrow> inventory" where
  "storeBlock st b bh =
     st\<lparr> blocks := AList.update bh (b\<lparr> hash := bh \<rparr>) (blocks st),
         seenMessages := insert (JStr bh) (seenMessages st),
         blockHeights := AList.update bh
           (case map_of (blockHeights st) (previousHash b) of None \<Rightarrow> 1
            | Some hp \<Rightarrow> if hp = 0 \<or> hp = - 1 then 1 else hp + 1) (blockHeights st) \<rparr>"

definition heights_nonneg :: "inventory \<Rightarrow> bool" where
  "heights_nonneg st = (\<forall>(k, v) \<in> set (blockHeights st). 0 \<le> v)"

text \<open>
  \<open>keys_seen\<close>: every hash with a recorded height is the hash of a stored block, and the
  hash of every stored block has been seen. \<open>height_law\<close>: a stored block that is not a
  genesis block and has a recorded height is at the default height 1 or one above the
  recorded height of its parent.
\<close>

definition keys_seen :: "inventory \<Rightarrow> bool" where
  "keys_seen st =
     (fst ` set (blockHeights st) \<subseteq> fst ` set (blocks st)
      \<and> (\<forall>h \<in> fst ` set (blocks st). JStr h \<in> seenMessages st))"

definition height_law :: "inventory \<Rightarrow> bool" where
  "height_law st =
     (\<forall>h b k. map_of (blocks st) h = Some b \<longrightarrow> \<not> isGenesis b \<longrightarrow>
        map_of (blockHeights st) h = Some k \<longrightarrow>
        k = 1 \<or> map_of (blockHeights st) (previousHash b) = Some (k - 1))"

definition heightOf :: "inventory \<Rightarrow> string \<Rightarrow> int" where
  "heightOf st h = get_or (blockHeights st) h 0"

text \<open>The sum over the balances map, and the number of genesis blocks in the store.\<close>

definition sumBalances :: "inventory \<Rightarrow> int" where
  "sumBalances st = sum_list (map snd (balances st))"

definition genesisCount :: "inventory \<Rightarrow> nat" where
  "genesisCount st = length (filter (\<lambda>(h, b). isGenesis b) (blocks st))"

text \<open>
  The two block lists of \<^verbatim>\<open>handleChainReorganization\<close>, the transactions a store
  holds under a hash, the transactions of the abandoned branch, and what a list of
  transactions gives back to, and takes from, an account when it is rolled back: \<open>credited\<close>
  sums the amounts the account sent to other accounts, \<open>debited\<close> the amounts it received.
\<close>

definition blocksToRollback :: "inventory \<Rightarrow> string \<Rightarrow> string \<Rightarrow> string list" where
  "blocksToRollback st oldHead newHead =
     (let oldChain = getChainToBlock st oldHead;
          newChain = getChainToBlock st newHead;
          commonAncestorIndex = commonAncestorLoop oldChain newChain 0
      in rev (drop commonAncestorIndex oldChain))"

definition blocksToApply :: "inventory \<Rightarrow> string \<Rightarrow> string \<Rightarrow> string list" where
  "blocksToApply st oldHead newHead =
     (let oldChain = getChainToBlock st oldHead;
          newChain = getChainToBlock st newHead;
          commonAncestorIndex = commonAncestorLoop oldChain newChain 0
      in drop commonAncestorIndex newChain)"

definition blockTxs :: "inventory \<Rightarrow> string \<Rightarrow> tx list" where
  "blockTxs st blockHash =
     (case map_of (blocks st) blockHash of None \<Rightarrow> []
      | Some b \<Rightarrow> (case transactions b of None \<Rightarrow> [] | Some ts \<Rightarrow> ts))"

definition abandonedTxs :: "inventory \<Rightarrow> string \<Rightarrow> string \<Rightarrow> tx list" where
  "abandonedTxs st oldHead newHead = concat (map (blockTxs st) (blocksToRollback st oldHead newHead))"



definition pow_ok :: "(string \<Rightarrow> string) \<Rightarrow> (block_body \<Rightarrow> string) \<Rightarrow> inventory \<Rightarrow> bool" where
  "pow_ok H J st =
     list_all (\<lambda>(h, b). isGenesis b \<or> startsWith (calculateBlockHash H J b) ''0000'') (blocks st)"

section \<open>Concrete values used in the evaluations\<close>

definition st_alice :: inventory where
  "st_alice = init\<lparr> balances := [(''alice'', 100)] \<rparr>"

definition tx_pay :: tx where
  "tx_pay = \<lparr> txid = ''t1'', sender = ''alice'', receiver = ''bob'', amount = 30,
              tx_timestamp = ''1'' \<rparr>"

definition tx_over :: tx where
  "tx_over = \<lparr> txid = ''t2'', sender = ''alice'', receiver = ''bob'', amount = 200,
               tx_timestamp = ''2'' \<rparr>"


definition req_over :: tx_req where
  "req_over = \<lparr> req_id = JStr ''t2'', req_sender = JStr ''alice'', req_receiver = JStr ''bob'',
                req_amount = JNum (Fin 200) \<rparr>"

definition req_abc :: tx_req where
  "req_abc = \<lparr> req_id = JStr ''t9'', req_sender = JStr ''mallory'', req_receiver = JStr ''bob'',
               req_amount = JStr ''abc'' \<rparr>"

definition toNumber_stub :: "jsval \<Rightarrow> jsnum" where
  "toNumber_stub v = NaN"

text \<open>
  Stand-ins for SHA-256 and \<^verbatim>\<open>JSON.stringify\<close> in the concrete evaluations: the
  serialisation of a block is its time stamp, and a hash has four leading zeros exactly when
  the hashed text ends in 7, so that 7 plays the part of a mined nonce.
\<close>

definition sha_stub :: "string \<Rightarrow> string" where
  "sha_stub s = (if s \<noteq> [] \<and> last s = CHR ''7'' then ''0000'' else ''ffff'') @ s"

definition json_stub :: "block_body \<Rightarrow> string" where
  "json_stub b = timestamp b"

definition mk_block :: "bool \<Rightarrow> string \<Rightarrow> string \<Rightarrow> string \<Rightarrow> string \<Rightarrow> tx list \<Rightarrow> string \<Rightarrow> block" where
  "mk_block g prev ts n c txs h =
     \<lparr> isGenesis = g, previousHash = prev, timestamp = ts, nonce = n, creator = c,
       merkleRoot = [], count = int (length txs), transactions = Some txs, hash = h \<rparr>"

definition genA :: block where
  "genA = mk_block True (replicate 64 CHR ''0'') ''g'' ''0'' ''alice'' [] ''ffffg0''"

definition genB :: block where
  "genB = mk_block True (replicate 64 CHR ''0'') ''h'' ''0'' ''bob'' [] ''ffffh0''"

definition tx_self :: tx where
  "tx_self = \<lparr> txid = ''t3'', sender = ''alice'', receiver = ''alice'', amount = 10,
               tx_timestamp = ''3'' \<rparr>"

definition blockA :: block where
  "blockA = mk_block False ''ffffg0'' ''a'' ''7'' ''bob'' [] ''0000a7''"

definition blockB :: block where
  "blockB = mk_block False ''ffffg0'' ''b'' ''7'' ''alice'' [] ''0000b7''"

definition blockC :: block where
  "blockC = mk_block False ''0000b7'' ''c'' ''7'' ''alice'' [] ''0000c7''"


definition blockS :: block where
  "blockS = mk_block False ''ffffg0'' ''b'' ''7'' ''alice'' [tx_self] ''0000b7''"

definition blockForged :: block where
  "blockForged = mk_block False ''ffffg0'' ''b'' ''7'' ''alice'' [] ''beef''"

definition blockW :: block where
  "blockW = mk_block False ''ffffg0'' ''w'' ''1'' ''bob'' [] ''ffffw1''"

definition st_genesis :: inventory where
  "st_genesis = snd (addBlock sha_stub json_stub init genA)"

definition st_orphan :: inventory where
  "st_orphan = snd (addBlock sha_stub json_stub
                 (snd (addBlock sha_stub json_stub st_genesis blockC)) blockB)"



definition st_self :: inventory where
  "st_self = snd (addBlock sha_stub json_stub
               (snd (addBlock sha_stub json_stub st_genesis blockS)) blockA)"

definition st_chainA :: inventory where
  "st_chainA = snd (addBlock sha_stub json_stub st_genesis blockA)"

definition st_chainB :: inventory where
  "st_chainB = snd (addBlock sha_stub json_stub st_genesis blockB)"



definition st_chainBC :: inventory where
  "st_chainBC = snd (addBlock sha_stub json_stub st_chainB blockC)"


section \<open>Transaction admission: theorems\<close>

text \<open>
  For a transaction whose sender and receiver are strings and whose amount is a finite
  number, \<open>addTransaction\<close> admits it as expected: it succeeds exactly when the id has
  not been seen, sender and receiver are not empty, the amount is strictly positive and the
  sender's balance is at least the amount. Whatever the transaction, a success stores it in
  the pending pool and adds its id to the seen set, and a failure leaves the state as it was.
\<close>

lemma validateTransaction_numeric:
  assumes "req_sender t = JStr s" and "req_receiver t = JStr r" and "req_amount t = JNum (Fin q)"
  shows "validateTransaction N st t \<longleftrightarrow>
           s \<noteq> [] \<and> r \<noteq> [] \<and> 0 < q \<and> q \<le> of_int (getBalance st s)"
  using assms
  by (auto simp: validateTransaction_def balanceOf_def getBalance_def jsnum_le_def Let_def)

lemma addTransaction_numeric:
  assumes "req_sender t = JStr s" and "req_receiver t = JStr r" and "req_amount t = JNum (Fin q)"
  shows "fst (addTransaction N st t) \<longleftrightarrow>
           \<not> set_has (seenMessages st) (req_id t)
           \<and> s \<noteq> [] \<and> r \<noteq> [] \<and> 0 < q \<and> q \<le> of_int (getBalance st s)"
  by (simp add: addTransaction_def validateTransaction_numeric [OF assms])

lemma addTransaction_success:
  "fst (addTransaction N st t) \<Longrightarrow>
     pending (snd (addTransaction N st t)) = map_set (req_id t) t (pending st)
     \<and> seenMessages (snd (addTransaction N st t)) = insert (req_id t) (seenMessages st)"
  by (auto simp: addTransaction_def split: if_splits)

lemma addTransaction_failure:
  "\<not> fst (addTransaction N st t) \<Longrightarrow> snd (addTransaction N st t) = st"
  by (auto simp: addTransaction_def split: if_splits)

text \<open>
  The tests of \<^verbatim>\<open>validateTransaction\<close> are all false for an amount that is truthy and
  whose number value is not-a-number, whatever the sender holds.
\<close>

lemma validateTransaction_nan:
  assumes "truthy (req_sender t)" and "truthy (req_receiver t)" and "truthy (req_amount t)"
    and "toNumber N (req_amount t) = NaN"
  shows "validateTransaction N st t"
  using assms by (simp add: validateTransaction_def jsnum_le_def Let_def)

text \<open>
  C8. \<^verbatim>\<open>validateTransaction\<close> tests the amount with \<^verbatim>\<open>!tx.amount\<close>,
  \<^verbatim>\<open>tx.amount <= 0\<close> and \<^verbatim>\<open>senderBalance < tx.amount\<close> and never checks that it is
  a number. For the transaction \<open>req_abc\<close>, whose amount is the text abc and whose sender
  mallory holds nothing, the three tests are false: \<open>addTransaction\<close> returns success and
  puts the transaction into the pending pool and its id into the seen set, where the claim
  says it fails for want of a strictly positive amount and of a sufficient balance.
\<close>

theorem addTransaction_admits_non_numeric_amount:
  "getBalance st_genesis ''mallory'' = 0
   \<and> req_amount req_abc = JStr ''abc''
   \<and> toNumber toNumber_stub (req_amount req_abc) = NaN
   \<and> \<not> set_has (seenMessages st_genesis) (req_id req_abc)
   \<and> fst (addTransaction toNumber_stub st_genesis req_abc)
   \<and> map_of (pending (snd (addTransaction toNumber_stub st_genesis req_abc))) (JStr ''t9'')
       = Some req_abc
   \<and> JStr ''t9'' \<in> seenMessages (snd (addTransaction toNumber_stub st_genesis req_abc))"
  by code_simp

text \<open>
  C10. Frame property: whatever the input, \<open>addTransaction\<close> leaves the block store, the
  height index, the chain head and the balances as they were (as well as the genesis
  flag); the pending pool and the seen set change only when it returns success.
\<close>

theorem addTransaction_frame:
  "blocks (snd (addTransaction N st t)) = blocks st
   \<and> blockHeights (snd (addTransaction N st t)) = blockHeights st
   \<and> blockchainHead (snd (addTransaction N st t)) = blockchainHead st
   \<and> balances (snd (addTransaction N st t)) = balances st
   \<and> genesisCreated (snd (addTransaction N st t)) = genesisCreated st
   \<and> (\<not> fst (addTransaction N st t) \<longrightarrow>
        pending (snd (addTransaction N st t)) = pending st
        \<and> seenMessages (snd (addTransaction N st t)) = seenMessages st)"
  by (simp add: addTransaction_def)

theorem addTransaction_frame_witness:
  "balances (snd (addTransaction toNumber_stub st_alice req_over)) = [(''alice'', 100)]
   \<and> \<not> fst (addTransaction toNumber_stub st_alice req_over)
   \<and> pending (snd (addTransaction toNumber_stub st_alice req_over)) = []
   \<and> seenMessages (snd (addTransaction toNumber_stub st_alice req_over)) = {}"
proof -
  have f: "\<not> fst (addTransaction toNumber_stub st_alice req_over)" by code_simp
  have b: "balances st_alice = [(''alice'', 100)]" "pending st_alice = []"
    "seenMessages st_alice = {}"
    by (simp_all add: st_alice_def init_def)
  from addTransaction_frame [of toNumber_stub st_alice req_over] f show ?thesis
    by (simp add: b)
qed

section \<open>Frame lemmas and the paths of addBlock\<close>

lemma same_chain_refl [simp]: "same_chain st st"
  by (simp add: same_chain_def)

lemma same_chain_trans: "same_chain a b \<Longrightarrow> same_chain b c \<Longrightarrow> same_chain a c"
  by (simp add: same_chain_def)

lemma same_chain_processTx: "same_chain st (processTx st t)"
  by (simp add: same_chain_def processTx_def Let_def)

lemma same_chain_foldl:
  assumes "\<And>s x. same_chain s (f s x)"
  shows "same_chain st (foldl f st xs)"
proof (induction xs arbitrary: st)
  case Nil
  show ?case by simp
next
  case (Cons x xs)
  have "same_chain st (f st x)" by (rule assms)
  moreover have "same_chain (f st x) (foldl f (f st x) xs)" by (rule Cons.IH)
  ultimately show ?case using same_chain_trans by auto
qed

lemma same_chain_processBlockTransactions: "same_chain st (processBlockTransactions st txs)"
  by (auto simp: processBlockTransactions_def same_chain_foldl same_chain_processTx
      split: option.splits)

lemma same_chain_rollbackTx: "same_chain st (rollbackTx st t)"
  by (simp add: same_chain_def rollbackTx_def Let_def)

lemma same_chain_rollbackBlock: "same_chain st (rollbackBlock st h)"
  by (auto simp: rollbackBlock_def same_chain_foldl same_chain_rollbackTx split: option.splits)

lemma same_chain_applyBlock: "same_chain st (applyBlock st h)"
  by (auto simp: applyBlock_def same_chain_processBlockTransactions split: option.splits)

lemma same_chain_reorg: "same_chain st (handleChainReorganization st oldHead newHead)"
  unfolding handleChainReorganization_def Let_def
  by (rule same_chain_trans [OF same_chain_foldl same_chain_foldl])
     (rule same_chain_rollbackBlock, rule same_chain_applyBlock)

lemma addBlock_accept_iff:
  "fst (addBlock H J st b) \<longleftrightarrow>
     JStr (chosenHash H J b) \<notin> seenMessages st \<and> JStr (calculateBlockHash H J b) \<notin> seenMessages st
     \<and> (isGenesis b \<or>
        (startsWith (calculateBlockHash H J b) ''0000''
         \<and> (\<exists>ts. transactions b = Some ts \<and> validateTxLoop (balances st) ts)))"
  by (auto simp: addBlock_def chosenHash_def Let_def validateBlockStructure_def
      validateBlockTransactions_def split: option.splits)

lemma addBlock_reject: "\<not> fst (addBlock H J st b) \<Longrightarrow> snd (addBlock H J st b) = st"
  by (auto simp: addBlock_def Let_def split: option.splits if_splits)

lemma addBlock_regular:
  assumes "\<not> isGenesis b" "fst (addBlock H J st b)"
  shows "snd (addBlock H J st b) =
           snd (applyConsensusRules
                  (processBlockTransactions (storeBlock st b (chosenHash H J b)) (transactions b))
                  (chosenHash H J b))"
  using assms
  by (auto simp: addBlock_def chosenHash_def Let_def storeBlock_def get_or_def
      split: option.splits if_splits)

lemma applyConsensusRules_same:
  "blocks (snd (applyConsensusRules st h)) = blocks st
   \<and> seenMessages (snd (applyConsensusRules st h)) = seenMessages st
   \<and> blockHeights (snd (applyConsensusRules st h)) = blockHeights st
   \<and> genesisCreated (snd (applyConsensusRules st h)) = genesisCreated st"
proof (cases "blockchainHead st")
  case None
  then show ?thesis by (simp add: applyConsensusRules_def)
next
  case (Some head)
  have "same_chain st (handleChainReorganization st head h)" by (rule same_chain_reorg)
  then have r: "blocks (handleChainReorganization st head h) = blocks st"
    "seenMessages (handleChainReorganization st head h) = seenMessages st"
    "blockHeights (handleChainReorganization st head h) = blockHeights st"
    "genesisCreated (handleChainReorganization st head h) = genesisCreated st"
    by (simp_all add: same_chain_def)
  show ?thesis using Some by (simp add: applyConsensusRules_def Let_def r)
qed

lemma applyConsensusRules_head:
  "blockchainHead (snd (applyConsensusRules st h)) =
     (if fst (applyConsensusRules st h) then Some h else blockchainHead st)"
  by (auto simp: applyConsensusRules_def Let_def split: option.splits)

lemma applyConsensusRules_fst:
  "blockchainHead st = Some head \<Longrightarrow> head \<noteq> [] \<Longrightarrow>
   fst (applyConsensusRules st h) \<longleftrightarrow>
     heightOf st h > heightOf st head \<or> (heightOf st h = heightOf st head \<and> h < head)"
  by (auto simp: applyConsensusRules_def Let_def heightOf_def)

lemma storeBlock_fields:
  "seenMessages (storeBlock st b bh) = insert (JStr bh) (seenMessages st)"
  "blockchainHead (storeBlock st b bh) = blockchainHead st"
  "balances (storeBlock st b bh) = balances st"
  "pending (storeBlock st b bh) = pending st"
  "genesisCreated (storeBlock st b bh) = genesisCreated st"
  "blocks (storeBlock st b bh) = AList.update bh (b\<lparr> hash := bh \<rparr>) (blocks st)"
  by (simp_all add: storeBlock_def)

lemma processBlockTransactions_fields:
  "blocks (processBlockTransactions st txs) = blocks st"
  "seenMessages (processBlockTransactions st txs) = seenMessages st"
  "blockHeights (processBlockTransactions st txs) = blockHeights st"
  "blockchainHead (processBlockTransactions st txs) = blockchainHead st"
  "genesisCreated (processBlockTransactions st txs) = genesisCreated st"
  using same_chain_processBlockTransactions [of st txs] by (simp_all add: same_chain_def)

text \<open>What an accepted regular block leaves in the chain part of the state.\<close>

lemma addBlock_regular_chain:
  assumes "\<not> isGenesis b" "fst (addBlock H J st b)"
  shows "blocks (snd (addBlock H J st b)) = blocks (storeBlock st b (chosenHash H J b))"
    and "seenMessages (snd (addBlock H J st b)) = insert (JStr (chosenHash H J b)) (seenMessages st)"
    and "blockHeights (snd (addBlock H J st b)) = blockHeights (storeBlock st b (chosenHash H J b))"
    and "blockchainHead (snd (addBlock H J st b)) =
           (if fst (applyConsensusRules
                  (processBlockTransactions (storeBlock st b (chosenHash H J b)) (transactions b))
                  (chosenHash H J b))
            then Some (chosenHash H J b) else blockchainHead st)"
  by (simp_all add: addBlock_regular [OF assms] applyConsensusRules_same applyConsensusRules_head
      processBlockTransactions_fields storeBlock_fields)

lemma addBlock_genesis:
  assumes "isGenesis b" "fst (addBlock H J st b)"
  shows "snd (addBlock H J st b) =
     st\<lparr> blocks := AList.update (chosenHash H J b) (b\<lparr> hash := chosenHash H J b \<rparr>) (blocks st),
         seenMessages := insert (JStr (chosenHash H J b)) (seenMessages st),
         genesisCreated := True,
         blockHeights := AList.update (chosenHash H J b) 0 (blockHeights st),
         blockchainHead := Some (chosenHash H J b),
         balances := (if creator b \<noteq> [] then AList.update (creator b) 100 (balances st)
                      else balances st) \<rparr>"
  using assms by (auto simp: addBlock_def chosenHash_def Let_def split: if_splits)

lemma head_seen_addBlock: "head_seen st \<Longrightarrow> head_seen (snd (addBlock H J st b))"
proof (cases "fst (addBlock H J st b)")
  case False
  assume "head_seen st"
  with False show ?thesis by (simp add: addBlock_reject)
next
  case True
  assume hs: "head_seen st"
  show ?thesis
  proof (cases "isGenesis b")
    case True
    with \<open>fst (addBlock H J st b)\<close> show ?thesis
      by (simp add: addBlock_genesis head_seen_def)
  next
    case False
    with True hs show ?thesis
      by (auto simp: addBlock_regular_chain head_seen_def split: option.splits)
  qed
qed

lemma syncBlock_fields:
  "blockchainHead (syncBlock st b) = blockchainHead st"
  "blockHeights (syncBlock st b) = blockHeights st"
  "seenMessages st \<subseteq> seenMessages (syncBlock st b)"
  by (auto simp: syncBlock_def)

lemma foldl_syncBlock_fields:
  "blockchainHead (foldl syncBlock st bs) = blockchainHead st
   \<and> blockHeights (foldl syncBlock st bs) = blockHeights st
   \<and> seenMessages st \<subseteq> seenMessages (foldl syncBlock st bs)"
proof (induction bs arbitrary: st)
  case Nil
  show ?case by simp
next
  case (Cons b bs)
  from Cons.IH [of "syncBlock st b"] syncBlock_fields [of st b] show ?case by auto
qed

lemma reachable_head_seen: "reachable H J st \<Longrightarrow> head_seen st"
proof (induction rule: reachable.induct)
  case r_init
  show ?case by (simp add: head_seen_def init_def)
next
  case (r_addBlock st b)
  then show ?case by (simp add: head_seen_addBlock)
next
  case (r_addTransaction st N t)
  then show ?case by (auto simp: head_seen_def addTransaction_def split: option.splits)
next
  case (r_createGenesisBlock st nodeId now)
  then show ?case by (auto simp: head_seen_def createGenesisBlock_def Let_def split: option.splits)
next
  case (r_syncTransaction st t)
  then show ?case by (auto simp: head_seen_def syncTransaction_def split: option.splits)
next
  case (r_syncFetchedBlocks st blockId fetched)
  then show ?case using foldl_syncBlock_fields [of st fetched]
    by (auto simp: head_seen_def syncFetchedBlocks_def split: option.splits)
qed

lemma set_update_subset: "set (AList.update k v al) \<subseteq> insert (k, v) (set al)"
  by (induction al) auto

lemma heights_nonneg_update:
  "heights_nonneg st \<Longrightarrow> 0 \<le> v \<Longrightarrow> blockHeights st' = AList.update k v (blockHeights st)
   \<Longrightarrow> heights_nonneg st'"
  unfolding heights_nonneg_def using set_update_subset [of k v "blockHeights st"] by auto

section \<open>Invariants of the reachable states\<close>

lemma heights_nonneg_addBlock: "heights_nonneg st \<Longrightarrow> heights_nonneg (snd (addBlock H J st b))"
proof (cases "fst (addBlock H J st b)")
  case False
  assume "heights_nonneg st"
  with False show ?thesis by (simp add: addBlock_reject)
next
  case True
  assume hn: "heights_nonneg st"
  show ?thesis
  proof (cases "isGenesis b")
    case True
    have "blockHeights (snd (addBlock H J st b)) = AList.update (chosenHash H J b) 0 (blockHeights st)"
      using True \<open>fst (addBlock H J st b)\<close> by (simp add: addBlock_genesis)
    with hn show ?thesis using heights_nonneg_update by fastforce
  next
    case False
    let ?v = "case map_of (blockHeights st) (previousHash b) of None \<Rightarrow> 1
              | Some hp \<Rightarrow> if hp = 0 \<or> hp = - 1 then 1 else hp + (1::int)"
    have eq: "blockHeights (snd (addBlock H J st b)) = AList.update (chosenHash H J b) ?v (blockHeights st)"
      using False True by (simp add: addBlock_regular_chain storeBlock_def)
    have "0 \<le> ?v"
    proof (cases "map_of (blockHeights st) (previousHash b)")
      case None
      then show ?thesis by simp
    next
      case (Some hp)
      then have "(previousHash b, hp) \<in> set (blockHeights st)" by (rule map_of_SomeD)
      with hn have "0 \<le> hp" by (auto simp: heights_nonneg_def)
      with Some show ?thesis by simp
    qed
    with hn eq show ?thesis using heights_nonneg_update by blast
  qed
qed

lemma reachable_heights_nonneg: "reachable H J st \<Longrightarrow> heights_nonneg st"
proof (induction rule: reachable.induct)
  case r_init
  show ?case by (simp add: heights_nonneg_def init_def)
next
  case (r_addBlock st b)
  then show ?case by (simp add: heights_nonneg_addBlock)
next
  case (r_addTransaction st N t)
  then show ?case by (simp add: heights_nonneg_def addTransaction_def)
next
  case (r_createGenesisBlock st nodeId now)
  show ?case
  proof (cases "genesisCreated st \<or> length (blocks st) > 0")
    case True
    with r_createGenesisBlock.IH show ?thesis by (simp add: createGenesisBlock_def)
  next
    case False
    then have "\<exists>k. blockHeights (snd (createGenesisBlock H J st nodeId now))
                 = AList.update k 0 (blockHeights st)"
      by (simp add: createGenesisBlock_def Let_def) (rule exI, rule refl)
    with r_createGenesisBlock.IH show ?thesis using heights_nonneg_update by fastforce
  qed
next
  case (r_syncTransaction st t)
  then show ?case by (simp add: heights_nonneg_def syncTransaction_def)
next
  case (r_syncFetchedBlocks st blockId fetched)
  then show ?case using foldl_syncBlock_fields [of st fetched]
    by (simp add: heights_nonneg_def syncFetchedBlocks_def)
qed

lemma get_or_update_other: "k' \<noteq> k \<Longrightarrow> get_or (AList.update k v m) k' d = get_or m k' d"
  by (simp add: get_or_def update_conv')

section \<open>Consensus rule\<close>

text \<open>
  C1. In a reachable state with a head, when \<open>addBlock\<close> accepts a non-genesis block
  \<open>b\<close>, stored under its identity \<open>chosenHash H J b\<close>, that identity is the new head
  exactly when the recorded height of \<open>b\<close> is strictly greater than the head's, or the
  heights are equal and the hash of \<open>b\<close> is lexicographically less than the head's hash;
  otherwise the head is retained. In both cases \<open>b\<close> is in the block store, and the
  head's recorded height is the one it had before the call.
\<close>

theorem consensus_rule:
  assumes "reachable H J st" and "\<not> isGenesis b" and "fst (addBlock H J st b)"
    and "blockchainHead st = Some head" and "head \<noteq> []"
  shows "(blockchainHead (snd (addBlock H J st b)) = Some (chosenHash H J b) \<longleftrightarrow>
            heightOf (snd (addBlock H J st b)) (chosenHash H J b) > heightOf (snd (addBlock H J st b)) head
            \<or> (heightOf (snd (addBlock H J st b)) (chosenHash H J b) = heightOf (snd (addBlock H J st b)) head
                \<and> chosenHash H J b < head))
         \<and> (blockchainHead (snd (addBlock H J st b)) \<noteq> Some (chosenHash H J b) \<longrightarrow>
              blockchainHead (snd (addBlock H J st b)) = Some head)
         \<and> map_of (blocks (snd (addBlock H J st b))) (chosenHash H J b)
             = Some (b\<lparr> hash := chosenHash H J b \<rparr>)
         \<and> heightOf (snd (addBlock H J st b)) head = heightOf st head"
proof -
  let ?bh = "chosenHash H J b"
  let ?st' = "snd (addBlock H J st b)"
  let ?st3 = "processBlockTransactions (storeBlock st b ?bh) (transactions b)"
  from assms(3) have fresh: "JStr ?bh \<notin> seenMessages st" by (simp add: addBlock_accept_iff)
  from assms(1) have "head_seen st" by (rule reachable_head_seen)
  with assms(4) have "JStr head \<in> seenMessages st" by (simp add: head_seen_def)
  with fresh have ne: "head \<noteq> ?bh" by auto
  have hd3: "blockchainHead ?st3 = Some head"
    using assms(4) by (simp add: processBlockTransactions_fields storeBlock_fields)
  have hts: "blockHeights ?st' = blockHeights ?st3"
    using assms(2,3) by (simp add: addBlock_regular_chain processBlockTransactions_fields)
  then have ho: "heightOf ?st' = heightOf ?st3" by (simp add: heightOf_def fun_eq_iff)
  have dec: "fst (applyConsensusRules ?st3 ?bh) \<longleftrightarrow>
       heightOf ?st' ?bh > heightOf ?st' head
       \<or> (heightOf ?st' ?bh = heightOf ?st' head \<and> ?bh < head)"
    using applyConsensusRules_fst [OF hd3 assms(5), of ?bh] by (simp add: ho)
  have hd': "blockchainHead ?st' = (if fst (applyConsensusRules ?st3 ?bh) then Some ?bh else Some head)"
    using assms(2,3,4) by (simp add: addBlock_regular_chain)
  have stored: "map_of (blocks ?st') ?bh = Some (b\<lparr> hash := ?bh \<rparr>)"
    using assms(2,3) by (simp add: addBlock_regular_chain storeBlock_fields update_conv')
  have "blockHeights ?st' = blockHeights (storeBlock st b ?bh)"
    using assms(2,3) by (simp add: addBlock_regular_chain)
  then have same: "heightOf ?st' head = heightOf st head"
    using ne by (simp add: heightOf_def storeBlock_def get_or_update_other)
  from dec hd' stored same ne show ?thesis by auto
qed

theorem consensus_rule_witness:
  "reachable sha_stub json_stub st_genesis \<and> \<not> isGenesis blockB
   \<and> fst (addBlock sha_stub json_stub st_genesis blockB)
   \<and> blockchainHead st_genesis = Some ''ffffg0''
   \<and> blockchainHead (snd (addBlock sha_stub json_stub st_genesis blockB)) = Some ''0000b7''
   \<and> reachable sha_stub json_stub st_chainA
   \<and> fst (addBlock sha_stub json_stub st_chainA blockB)
   \<and> blockchainHead st_chainA = Some ''0000a7''
   \<and> blockchainHead (snd (addBlock sha_stub json_stub st_chainA blockB)) = Some ''0000a7''
   \<and> map_of (blocks (snd (addBlock sha_stub json_stub st_chainA blockB))) ''0000b7'' = Some blockB"
proof -
  have r: "reachable sha_stub json_stub st_genesis"
    unfolding st_genesis_def by (rule r_addBlock [OF r_init])
  have r': "reachable sha_stub json_stub st_chainA"
    unfolding st_chainA_def by (rule r_addBlock [OF r])
  have g: "\<not> isGenesis blockB" by code_simp
  have a: "fst (addBlock sha_stub json_stub st_genesis blockB)" by code_simp
  have a': "fst (addBlock sha_stub json_stub st_chainA blockB)" by code_simp
  have h: "blockchainHead st_genesis = Some ''ffffg0''" by code_simp
  have h': "blockchainHead st_chainA = Some ''0000a7''" by code_simp
  have n: "''ffffg0'' \<noteq> []" "''0000a7'' \<noteq> []" by simp_all
  have c: "chosenHash sha_stub json_stub blockB = ''0000b7''" by code_simp
  have u: "blockB\<lparr> hash := ''0000b7'' \<rparr> = blockB" by code_simp
  have hts: "heightOf (snd (addBlock sha_stub json_stub st_genesis blockB)) ''0000b7'' = 1"
    "heightOf (snd (addBlock sha_stub json_stub st_genesis blockB)) ''ffffg0'' = 0"
    "heightOf (snd (addBlock sha_stub json_stub st_chainA blockB)) ''0000b7'' = 1"
    "heightOf (snd (addBlock sha_stub json_stub st_chainA blockB)) ''0000a7'' = 1"
    by code_simp+
  have lt: "\<not> ''0000b7'' < ''0000a7''" by code_simp
  from consensus_rule [OF r g a h n(1)] consensus_rule [OF r' g a' h' n(2)]
  show ?thesis using r r' g a a' h h' by (simp add: c u hts lt)
qed

section \<open>Block heights\<close>

text \<open>
  What \<open>addBlock\<close> writes into the height index when it accepts a block that is not a
  genesis block: one entry, the parent's recorded height plus one, or 1 when the parent has
  no recorded height.
\<close>

lemma height_at_insertion:
  assumes "reachable H J st" and "\<not> isGenesis b" and "fst (addBlock H J st b)"
  shows "blockHeights (snd (addBlock H J st b)) =
           AList.update (chosenHash H J b)
             (case map_of (blockHeights st) (previousHash b) of None \<Rightarrow> 1 | Some hp \<Rightarrow> hp + 1)
             (blockHeights st)"
proof -
  from assms(1) have hn: "heights_nonneg st" by (rule reachable_heights_nonneg)
  have "(case map_of (blockHeights st) (previousHash b) of None \<Rightarrow> 1
         | Some hp \<Rightarrow> if hp = 0 \<or> hp = - 1 then 1 else hp + (1::int))
        = (case map_of (blockHeights st) (previousHash b) of None \<Rightarrow> 1 | Some hp \<Rightarrow> hp + 1)"
  proof (cases "map_of (blockHeights st) (previousHash b)")
    case None
    then show ?thesis by simp
  next
    case (Some hp)
    then have "(previousHash b, hp) \<in> set (blockHeights st)" by (rule map_of_SomeD)
    with hn have "0 \<le> hp" by (auto simp: heights_nonneg_def)
    with Some show ?thesis by simp
  qed
  then show ?thesis using assms(2,3) by (simp add: addBlock_regular_chain storeBlock_def)
qed


lemma not_in_keys: "k \<notin> fst ` set m \<Longrightarrow> map_of m k = None"
  by (simp add: map_of_eq_None_iff)

lemma fresh_hash:
  assumes "keys_seen st" and "JStr bh \<notin> seenMessages st"
  shows "map_of (blocks st) bh = None" and "map_of (blockHeights st) bh = None"
proof -
  from assms have "bh \<notin> fst ` set (blocks st)" by (auto simp: keys_seen_def)
  moreover from this assms(1) have "bh \<notin> fst ` set (blockHeights st)"
    by (auto simp: keys_seen_def)
  ultimately show "map_of (blocks st) bh = None" and "map_of (blockHeights st) bh = None"
    by (simp_all add: not_in_keys)
qed

text \<open>Storing a block under a hash not seen before, with or without a height.\<close>

lemma keys_step:
  "A \<subseteq> B \<Longrightarrow> \<forall>h \<in> B. f h \<in> S \<Longrightarrow> A' \<subseteq> insert x A \<Longrightarrow>
   A' \<subseteq> insert x B \<and> (\<forall>h \<in> insert x B. f h \<in> insert (f x) S)"
  by blast

lemma keys_seen_insert:
  assumes "keys_seen st"
    and "blocks st' = AList.update bh b' (blocks st)"
    and "fst ` set (blockHeights st') \<subseteq> insert bh (fst ` set (blockHeights st))"
    and "seenMessages st' = insert (JStr bh) (seenMessages st)"
  shows "keys_seen st'"
proof -
  have kb: "fst ` set (blocks st') = insert bh (fst ` set (blocks st))"
    using assms(2) by (simp add: dom_update)
  from assms(1) have a: "fst ` set (blockHeights st) \<subseteq> fst ` set (blocks st)"
    and b: "\<forall>h \<in> fst ` set (blocks st). JStr h \<in> seenMessages st"
    unfolding keys_seen_def by blast+
  from keys_step [OF a b assms(3)] show ?thesis
    unfolding keys_seen_def kb assms(4) .
qed

lemma height_law_insert:
  assumes law: "height_law st" and ks: "keys_seen st" and fresh: "JStr bh \<notin> seenMessages st"
    and bl: "blocks st' = AList.update bh b' (blocks st)"
    and ht: "blockHeights st' = AList.update bh v (blockHeights st)"
    and val: "isGenesis b' \<or> v = 1 \<or> map_of (blockHeights st) (previousHash b') = Some (v - 1)"
  shows "height_law st'"
  unfolding height_law_def
proof (intro allI impI)
  fix h b k
  assume m: "map_of (blocks st') h = Some b" and g: "\<not> isGenesis b"
    and hk: "map_of (blockHeights st') h = Some k"
  note none = fresh_hash [OF ks fresh]
  have keep: "map_of (blockHeights st') p = Some j" if "map_of (blockHeights st) p = Some j" for p j
  proof -
    from that none(2) have "p \<noteq> bh" by auto
    with that show ?thesis by (simp add: ht update_conv')
  qed
  show "k = 1 \<or> map_of (blockHeights st') (previousHash b) = Some (k - 1)"
  proof (cases "h = bh")
    case True
    with m hk have "b = b'" and "k = v" by (simp_all add: bl ht update_conv')
    with g val keep show ?thesis by auto
  next
    case False
    with m hk have "map_of (blocks st) h = Some b" and "map_of (blockHeights st) h = Some k"
      by (simp_all add: bl ht update_conv')
    with law g have "k = 1 \<or> map_of (blockHeights st) (previousHash b) = Some (k - 1)"
      unfolding height_law_def by blast
    with keep show ?thesis by auto
  qed
qed

lemma height_law_store:
  assumes law: "height_law st" and ks: "keys_seen st" and fresh: "JStr bh \<notin> seenMessages st"
    and bl: "blocks st' = AList.update bh b' (blocks st)"
    and ht: "blockHeights st' = blockHeights st"
  shows "height_law st'"
  unfolding height_law_def
proof (intro allI impI)
  fix h b k
  assume m: "map_of (blocks st') h = Some b" and g: "\<not> isGenesis b"
    and hk: "map_of (blockHeights st') h = Some k"
  note none = fresh_hash [OF ks fresh]
  from hk none(2) have "h \<noteq> bh" by (auto simp: ht)
  with m hk have "map_of (blocks st) h = Some b" and "map_of (blockHeights st) h = Some k"
    by (simp_all add: bl ht update_conv')
  with law g show "k = 1 \<or> map_of (blockHeights st') (previousHash b) = Some (k - 1)"
    unfolding height_law_def ht by blast
qed

lemma store_inv_addBlock:
  assumes ks: "keys_seen st" and law: "height_law st"
  shows "keys_seen (snd (addBlock H J st b)) \<and> height_law (snd (addBlock H J st b))"
proof (cases "fst (addBlock H J st b)")
  case False
  with assms show ?thesis by (simp add: addBlock_reject)
next
  case True
  let ?bh = "chosenHash H J b"
  let ?b' = "b\<lparr> hash := ?bh \<rparr>"
  let ?st' = "snd (addBlock H J st b)"
  from True have fresh: "JStr ?bh \<notin> seenMessages st" by (simp add: addBlock_accept_iff)
  show ?thesis
  proof (cases "isGenesis b")
    case True
    have bl: "blocks ?st' = AList.update ?bh ?b' (blocks st)"
      and ht: "blockHeights ?st' = AList.update ?bh 0 (blockHeights st)"
      and sn: "seenMessages ?st' = insert (JStr ?bh) (seenMessages st)"
      using True \<open>fst (addBlock H J st b)\<close> by (simp_all add: addBlock_genesis)
    have "keys_seen ?st'" using ks bl _ sn by (rule keys_seen_insert) (simp add: ht dom_update)
    moreover have "height_law ?st'"
      using law ks fresh bl ht by (rule height_law_insert) (simp add: True)
    ultimately show ?thesis ..
  next
    case False
    let ?v = "case map_of (blockHeights st) (previousHash b) of None \<Rightarrow> 1
              | Some hp \<Rightarrow> if hp = 0 \<or> hp = - 1 then 1 else hp + (1::int)"
    have bl: "blocks ?st' = AList.update ?bh ?b' (blocks st)"
      and ht: "blockHeights ?st' = AList.update ?bh ?v (blockHeights st)"
      and sn: "seenMessages ?st' = insert (JStr ?bh) (seenMessages st)"
      using False True by (simp_all add: addBlock_regular_chain storeBlock_def)
    have val: "?v = 1 \<or> map_of (blockHeights st) (previousHash ?b') = Some (?v - 1)"
      by (cases "map_of (blockHeights st) (previousHash b)") auto
    have "keys_seen ?st'" using ks bl _ sn by (rule keys_seen_insert) (simp add: ht dom_update)
    moreover have "height_law ?st'"
      using law ks fresh bl ht by (rule height_law_insert) (use val in blast)
    ultimately show ?thesis ..
  qed
qed

lemma store_inv_syncBlock:
  assumes ks: "keys_seen st" and law: "height_law st"
  shows "keys_seen (syncBlock st b) \<and> height_law (syncBlock st b)"
proof (cases "JStr (hash b) \<in> seenMessages st")
  case True
  with assms show ?thesis by (simp add: syncBlock_def)
next
  case False
  then have bl: "blocks (syncBlock st b) = AList.update (hash b) b (blocks st)"
    and ht: "blockHeights (syncBlock st b) = blockHeights st"
    and sn: "seenMessages (syncBlock st b) = insert (JStr (hash b)) (seenMessages st)"
    by (simp_all add: syncBlock_def)
  have "keys_seen (syncBlock st b)"
    using ks bl _ sn by (rule keys_seen_insert) (auto simp: ht)
  moreover have "height_law (syncBlock st b)"
    using law ks False bl ht by (rule height_law_store)
  ultimately show ?thesis ..
qed

lemma store_inv_foldl_syncBlock:
  "keys_seen st \<Longrightarrow> height_law st \<Longrightarrow>
   keys_seen (foldl syncBlock st bs) \<and> height_law (foldl syncBlock st bs)"
proof (induction bs arbitrary: st)
  case Nil
  then show ?case by simp
next
  case (Cons b bs)
  from store_inv_syncBlock [OF Cons.prems] Cons.IH [of "syncBlock st b"] show ?case by simp
qed

lemma store_inv_seen_only:
  assumes "keys_seen st" and "height_law st"
    and "blocks st' = blocks st" and "blockHeights st' = blockHeights st"
    and "seenMessages st \<subseteq> seenMessages st'"
  shows "keys_seen st' \<and> height_law st'"
  using assms unfolding keys_seen_def height_law_def by auto

lemma reachable_store_inv: "reachable H J st \<Longrightarrow> keys_seen st \<and> height_law st"
proof (induction rule: reachable.induct)
  case r_init
  show ?case by (simp add: keys_seen_def height_law_def init_def)
next
  case (r_addBlock st b)
  then show ?case by (simp add: store_inv_addBlock)
next
  case (r_addTransaction st N t)
  then show ?case
    by (intro store_inv_seen_only [of st]) (auto simp: addTransaction_def)
next
  case (r_createGenesisBlock st nodeId now)
  show ?case
  proof (cases "genesisCreated st \<or> length (blocks st) > 0")
    case True
    with r_createGenesisBlock.IH show ?thesis by (simp add: createGenesisBlock_def)
  next
    case False
    then have e: "blocks st = []" by simp
    with r_createGenesisBlock.IH have h: "blockHeights st = []" by (simp add: keys_seen_def)
    from False show ?thesis
      by (simp add: createGenesisBlock_def Let_def keys_seen_def height_law_def e h)
  qed
next
  case (r_syncTransaction st t)
  then show ?case
    by (intro store_inv_seen_only [of st]) (auto simp: syncTransaction_def)
next
  case (r_syncFetchedBlocks st blockId fetched)
  then show ?case by (simp add: syncFetchedBlocks_def store_inv_foldl_syncBlock)
qed

text \<open>
  C7, as amended. In every state the node reaches, a stored block that is not a genesis
  block and has a recorded height \<open>k\<close> is at the default height, \<open>k = 1\<close>, or its parent
  has a recorded height \<open>kp\<close> and \<open>k = kp + 1\<close>. The blocks at height 1 are exempt because
  a block that arrives before its parent gets height 1 and keeps it when the parent arrives.
\<close>

theorem height_invariant:
  assumes "reachable H J st" and "map_of (blocks st) h = Some b" and "\<not> isGenesis b"
    and "map_of (blockHeights st) h = Some k"
  shows "k = 1 \<or> (\<exists>kp. map_of (blockHeights st) (previousHash b) = Some kp \<and> k = kp + 1)"
proof -
  from assms(1) have "height_law st" by (simp add: reachable_store_inv)
  with assms(2-4) have "k = 1 \<or> map_of (blockHeights st) (previousHash b) = Some (k - 1)"
    unfolding height_law_def by blast
  then show ?thesis by auto
qed

theorem height_invariant_witness:
  "reachable sha_stub json_stub st_chainBC
   \<and> map_of (blocks st_chainBC) ''0000c7'' = Some blockC \<and> \<not> isGenesis blockC
   \<and> map_of (blockHeights st_chainBC) ''0000c7'' = Some 2
   \<and> map_of (blockHeights st_chainBC) (previousHash blockC) = Some 1"
proof -
  have r: "reachable sha_stub json_stub st_chainBC"
    unfolding st_chainBC_def st_chainB_def st_genesis_def
    by (rule r_addBlock [OF r_addBlock [OF r_addBlock [OF r_init]]])
  have m: "map_of (blocks st_chainBC) ''0000c7'' = Some blockC" by code_simp
  have g: "\<not> isGenesis blockC" by code_simp
  have k: "map_of (blockHeights st_chainBC) ''0000c7'' = Some 2" by code_simp
  from height_invariant [OF r m g k] show ?thesis using r m g k by auto
qed

text \<open>
  The claim as stated fails: after the genesis block, the orphan \<open>blockC\<close> (parent
  \<^verbatim>\<open>0000b7\<close>, not yet known) gets height 1; when its parent \<open>blockB\<close> arrives it
  gets height 1 as well, and the orphan's height stays 1 instead of 2.
\<close>

theorem height_invariant_counterexample:
  "reachable sha_stub json_stub st_orphan
   \<and> map_of (blocks st_orphan) ''0000c7'' = Some blockC \<and> \<not> isGenesis blockC
   \<and> previousHash blockC = ''0000b7''
   \<and> map_of (blocks st_orphan) ''0000b7'' = Some blockB
   \<and> map_of (blockHeights st_orphan) ''0000c7'' = Some 1
   \<and> map_of (blockHeights st_orphan) ''0000b7'' = Some 1
   \<and> heightOf st_orphan ''0000c7'' \<noteq> heightOf st_orphan (previousHash blockC) + 1"
proof -
  have "reachable sha_stub json_stub st_orphan"
    unfolding st_orphan_def st_genesis_def
    by (rule r_addBlock [OF r_addBlock [OF r_addBlock [OF r_init]]])
  moreover have "map_of (blocks st_orphan) ''0000c7'' = Some blockC \<and> \<not> isGenesis blockC
   \<and> previousHash blockC = ''0000b7''
   \<and> map_of (blocks st_orphan) ''0000b7'' = Some blockB
   \<and> map_of (blockHeights st_orphan) ''0000c7'' = Some 1
   \<and> map_of (blockHeights st_orphan) ''0000b7'' = Some 1
   \<and> heightOf st_orphan ''0000c7'' \<noteq> heightOf st_orphan (previousHash blockC) + 1"
    by code_simp
  ultimately show ?thesis by (rule conjI)
qed

section \<open>Acceptance and rejection of blocks\<close>

text \<open>
  C4, as amended. For a block that is not a genesis block, \<open>addBlock\<close> never compares the
  recomputed hash with the claimed one. It rejects the block exactly when its identity (the
  claimed hash, or the recomputed hash when none is claimed) or its recomputed hash has been
  seen, or its recomputed hash does not start with four zeros, or its transactions are not
  a list that validates against the balances. A rejected block leaves the state unchanged;
  an accepted block is stored under its identity, whether or not that is the recomputed hash.
\<close>

theorem addBlock_rejection:
  assumes "\<not> isGenesis b"
  shows "(\<not> fst (addBlock H J st b) \<longleftrightarrow>
            JStr (chosenHash H J b) \<in> seenMessages st
            \<or> JStr (calculateBlockHash H J b) \<in> seenMessages st
            \<or> \<not> startsWith (calculateBlockHash H J b) ''0000''
            \<or> (\<forall>ts. transactions b = Some ts \<longrightarrow> \<not> validateTxLoop (balances st) ts))
         \<and> (\<not> fst (addBlock H J st b) \<longrightarrow> snd (addBlock H J st b) = st)
         \<and> (fst (addBlock H J st b) \<longrightarrow>
              map_of (blocks (snd (addBlock H J st b))) (chosenHash H J b)
                = Some (b\<lparr> hash := chosenHash H J b \<rparr>))"
proof -
  have "map_of (blocks (snd (addBlock H J st b))) (chosenHash H J b)
          = Some (b\<lparr> hash := chosenHash H J b \<rparr>)" if "fst (addBlock H J st b)"
    using that assms by (simp add: addBlock_regular_chain storeBlock_fields update_conv')
  then show ?thesis
    using assms addBlock_accept_iff [of H J st b] addBlock_reject [of H J st b] by blast
qed

theorem addBlock_rejection_witness:
  "\<not> startsWith (calculateBlockHash sha_stub json_stub blockW) ''0000''
   \<and> \<not> fst (addBlock sha_stub json_stub st_genesis blockW)
   \<and> snd (addBlock sha_stub json_stub st_genesis blockW) = st_genesis
   \<and> fst (addBlock sha_stub json_stub st_genesis blockB)
   \<and> map_of (blocks (snd (addBlock sha_stub json_stub st_genesis blockB))) ''0000b7'' = Some blockB"
proof -
  have w: "\<not> startsWith (calculateBlockHash sha_stub json_stub blockW) ''0000''" by code_simp
  have g: "\<not> isGenesis blockW" by code_simp
  have a: "fst (addBlock sha_stub json_stub st_genesis blockB)" by code_simp
  have c: "chosenHash sha_stub json_stub blockB = ''0000b7''" by code_simp
  have u: "blockB\<lparr> hash := ''0000b7'' \<rparr> = blockB" by code_simp
  have g': "\<not> isGenesis blockB" by code_simp
  from addBlock_rejection [OF g, of sha_stub json_stub st_genesis]
    addBlock_rejection [OF g', of sha_stub json_stub st_genesis]
  show ?thesis using w a by (simp add: c u)
qed

text \<open>
  The claim as stated fails: \<open>blockForged\<close> claims the hash \<^verbatim>\<open>beef\<close> while its
  recomputed hash is \<^verbatim>\<open>0000b7\<close>; it is accepted, stored under the claimed hash and
  made head.
\<close>

theorem hash_identity_counterexample:
  "calculateBlockHash sha_stub json_stub blockForged = ''0000b7''
   \<and> hash blockForged = ''beef''
   \<and> fst (addBlock sha_stub json_stub st_genesis blockForged)
   \<and> map_of (blocks (snd (addBlock sha_stub json_stub st_genesis blockForged))) ''beef''
       = Some blockForged
   \<and> blockchainHead (snd (addBlock sha_stub json_stub st_genesis blockForged)) = Some ''beef''"
  by code_simp

section \<open>Reorganisation\<close>

lemma get_or_update_same: "get_or (AList.update k v m) k 0 = v"
  by (simp add: get_or_def update_conv')







lemma blocks_foldl_rollbackTx: "blocks (foldl rollbackTx st ts) = blocks st"
  using same_chain_foldl [of rollbackTx st ts, OF same_chain_rollbackTx]
  by (simp add: same_chain_def)

lemma rollbackBlock_eq: "rollbackBlock s h = foldl rollbackTx s (blockTxs s h)"
  by (simp add: rollbackBlock_def blockTxs_def split: option.splits)

lemma foldl_rollbackBlock_eq:
  "blocks s = blocks st \<Longrightarrow>
   foldl rollbackBlock s hs = foldl rollbackTx s (concat (map (blockTxs st) hs))"
proof (induction hs arbitrary: s)
  case Nil
  show ?case by simp
next
  case (Cons h hs)
  have b: "blocks (rollbackBlock s h) = blocks st"
    using Cons.prems by (simp add: rollbackBlock_eq blocks_foldl_rollbackTx)
  have c: "blockTxs s h = blockTxs st h"
    using Cons.prems by (simp add: blockTxs_def)
  show ?case
    using Cons.IH [OF b] by (simp add: rollbackBlock_eq c)
qed





lemma handleChainReorganization_phases:
  "handleChainReorganization st oldHead newHead =
     foldl applyBlock (foldl rollbackBlock st (blocksToRollback st oldHead newHead))
       (blocksToApply st oldHead newHead)"
  by (simp add: handleChainReorganization_def blocksToRollback_def blocksToApply_def Let_def)




section \<open>Genesis blocks\<close>

text \<open>
  The first part of claim C6 holds for every genesis block that \<open>addBlock\<close> accepts: the
  block gets height 0 and becomes head, and a creator that is given holds exactly 100.
\<close>

lemma addBlock_genesis_effect:
  assumes "isGenesis b" and "fst (addBlock H J st b)"
  shows "heightOf (snd (addBlock H J st b)) (chosenHash H J b) = 0"
    and "blockchainHead (snd (addBlock H J st b)) = Some (chosenHash H J b)"
    and "creator b \<noteq> [] \<Longrightarrow> getBalance (snd (addBlock H J st b)) (creator b) = 100"
  by (simp_all add: addBlock_genesis [OF assms] heightOf_def getBalance_def get_or_def update_conv')

text \<open>
  No state keeps \<open>addBlock\<close> from accepting a genesis block whose hashes it has not seen,
  whether or not a genesis block exists already.
\<close>

lemma addBlock_genesis_unguarded:
  "isGenesis b \<Longrightarrow> JStr (chosenHash H J b) \<notin> seenMessages st \<Longrightarrow>
   JStr (calculateBlockHash H J b) \<notin> seenMessages st \<Longrightarrow> fst (addBlock H J st b)"
  by (simp add: addBlock_accept_iff)

text \<open>
  C6. The claim holds for \<^verbatim>\<open>createGenesisBlock\<close>, which refuses to create a second
  genesis block, but \<open>addBlock\<close> has no such guard: with \<open>genA\<close> accepted (head
  \<^verbatim>\<open>ffffg0\<close>, alice endowed with 100), the second genesis block \<open>genB\<close> of distinct
  hash is accepted as well, becomes head and endows bob with another 100.
\<close>

theorem second_genesis_accepted:
  "genesisCreated st_genesis \<and> blockchainHead st_genesis = Some ''ffffg0''
   \<and> heightOf st_genesis ''ffffg0'' = 0
   \<and> balances st_genesis = [(''alice'', 100)]
   \<and> isGenesis genB \<and> hash genB = ''ffffh0''
   \<and> fst (createGenesisBlock sha_stub json_stub st_genesis ''bob'' ''h'') = None
   \<and> fst (addBlock sha_stub json_stub st_genesis genB)
   \<and> blockchainHead (snd (addBlock sha_stub json_stub st_genesis genB)) = Some ''ffffh0''
   \<and> balances (snd (addBlock sha_stub json_stub st_genesis genB))
       = [(''alice'', 100), (''bob'', 100)]"
  by code_simp

section \<open>Proof of work\<close>

text \<open>\<open>addBlock\<close> keeps the proof-of-work property of the store.\<close>

lemma calculateBlockHash_hash_update:
  "calculateBlockHash H J (b\<lparr> hash := h \<rparr>) = calculateBlockHash H J b"
  by (simp add: calculateBlockHash_def block_body.truncate_def)

lemma pow_ok_update:
  assumes "pow_ok H J st" and "isGenesis b \<or> startsWith (calculateBlockHash H J b) ''0000''"
    and "blocks st' = AList.update k b (blocks st)"
  shows "pow_ok H J st'"
  using assms set_update_subset [of k b "blocks st"]
  unfolding pow_ok_def list_all_iff by auto

lemma pow_ok_addBlock: "pow_ok H J st \<Longrightarrow> pow_ok H J (snd (addBlock H J st b))"
proof (cases "fst (addBlock H J st b)")
  case False
  assume "pow_ok H J st"
  with False show ?thesis by (simp add: addBlock_reject)
next
  case True
  assume p: "pow_ok H J st"
  from True have ok: "isGenesis b \<or> startsWith (calculateBlockHash H J b) ''0000''"
    by (auto simp: addBlock_accept_iff)
  have bl: "blocks (snd (addBlock H J st b))
          = AList.update (chosenHash H J b) (b\<lparr> hash := chosenHash H J b \<rparr>) (blocks st)"
    using True by (cases "isGenesis b") (simp_all add: addBlock_genesis addBlock_regular_chain storeBlock_fields)
  have ok': "isGenesis (b\<lparr> hash := chosenHash H J b \<rparr>)
      \<or> startsWith (calculateBlockHash H J (b\<lparr> hash := chosenHash H J b \<rparr>)) ''0000''"
    using ok by (simp add: calculateBlockHash_hash_update)
  show ?thesis by (rule pow_ok_update [OF p ok' bl])
qed

text \<open>
  C5. The property holds along \<open>addBlock\<close> (also used at bootstrap), but the inventory
  synchronisation stores what a peer returns without any check: \<open>blockW\<close> is not a
  genesis block and its recomputed hash \<^verbatim>\<open>ffffw1\<close> has no leading zeros; \<open>addBlock\<close>
  rejects it, the synchronisation puts it into the block store.
\<close>

theorem sync_stores_block_without_pow:
  "pow_ok sha_stub json_stub st_genesis
   \<and> \<not> isGenesis blockW
   \<and> calculateBlockHash sha_stub json_stub blockW = ''ffffw1''
   \<and> \<not> startsWith (calculateBlockHash sha_stub json_stub blockW) ''0000''
   \<and> \<not> fst (addBlock sha_stub json_stub st_genesis blockW)
   \<and> map_of (blocks (syncFetchedBlocks st_genesis ''ffffw1'' [blockW])) ''ffffw1'' = Some blockW
   \<and> \<not> pow_ok sha_stub json_stub (syncFetchedBlocks st_genesis ''ffffw1'' [blockW])"
  by code_simp

section \<open>Conservation of the balances\<close>

lemma sum_update:
  "sum_list (map snd (AList.update k v al)) = sum_list (map snd al) - get_or al k 0 + v"
  by (induction al) (auto simp: get_or_def)

lemma sumBalances_processTx: "sumBalances (processTx st t) = sumBalances st"
  by (simp add: processTx_def sumBalances_def Let_def sum_update get_or_update_same)

lemma sumBalances_processBlockTransactions:
  "sumBalances (processBlockTransactions st txs) = sumBalances st"
proof -
  have "sumBalances (foldl processTx s ts) = sumBalances s" for s ts
    by (induction ts arbitrary: s) (simp_all add: sumBalances_processTx)
  then show ?thesis by (simp add: processBlockTransactions_def split: option.splits)
qed

lemma sumBalances_rollbackTx:
  "sender t \<noteq> receiver t \<Longrightarrow> sumBalances (rollbackTx st t) = sumBalances st"
  by (simp add: rollbackTx_def sumBalances_def Let_def sum_update get_or_update_other)

lemma sumBalances_rollbackTx_self:
  "sender t = receiver t \<Longrightarrow> sender t \<noteq> [] \<Longrightarrow>
   sumBalances (rollbackTx st t) = sumBalances st - amount t"
  by (simp add: rollbackTx_def sumBalances_def Let_def sum_update get_or_update_same)

lemma sumBalances_foldl_rollbackTx:
  "\<forall>t \<in> set ts. sender t \<noteq> receiver t \<Longrightarrow>
   sumBalances (foldl rollbackTx st ts) = sumBalances st"
  by (induction ts arbitrary: st) (simp_all add: sumBalances_rollbackTx)

lemma sumBalances_applyBlock: "sumBalances (applyBlock st h) = sumBalances st"
  by (simp add: applyBlock_def sumBalances_processBlockTransactions split: option.splits)

lemma sumBalances_foldl_applyBlock: "sumBalances (foldl applyBlock st hs) = sumBalances st"
  by (induction hs arbitrary: st) (simp_all add: sumBalances_applyBlock)

text \<open>
  A reorganisation that abandons no transfer from an account to itself conserves the sum
  of the balances.
\<close>

lemma sumBalances_handleChainReorganization:
  assumes "\<forall>t \<in> set (abandonedTxs st oldHead newHead). sender t \<noteq> receiver t"
  shows "sumBalances (handleChainReorganization st oldHead newHead) = sumBalances st"
proof -
  have "foldl rollbackBlock st (blocksToRollback st oldHead newHead)
          = foldl rollbackTx st (abandonedTxs st oldHead newHead)"
    unfolding abandonedTxs_def by (rule foldl_rollbackBlock_eq) simp
  then show ?thesis
    using assms
    by (simp add: handleChainReorganization_phases sumBalances_foldl_applyBlock
        sumBalances_foldl_rollbackTx)
qed

text \<open>
  C2. Applying transactions conserves the sum of the balances, and so does rolling back a
  transfer between two accounts. Rolling back a transfer from an account to itself does
  not: \<^verbatim>\<open>handleChainReorganization\<close> reads both balances before it writes either, so
  the second write undoes the first and the account loses the amount. With one genesis
  block \<open>genA\<close>, the block \<open>blockS\<close> carrying alice's transfer of 10 to herself, and the
  competing block \<open>blockA\<close> that makes the node abandon \<open>blockS\<close>, the balances sum to 90.
\<close>

theorem rollback_self_transfer_loses_coins:
  "reachable sha_stub json_stub st_self
   \<and> genesisCount st_self = 1
   \<and> sumBalances st_genesis = 100
   \<and> sumBalances (snd (addBlock sha_stub json_stub st_genesis blockS)) = 100
   \<and> balances st_self = [(''alice'', 90)]
   \<and> sumBalances st_self = 90"
proof -
  have "reachable sha_stub json_stub st_self"
    unfolding st_self_def st_genesis_def
    by (rule r_addBlock [OF r_addBlock [OF r_addBlock [OF r_init]]])
  moreover have "genesisCount st_self = 1
   \<and> sumBalances st_genesis = 100
   \<and> sumBalances (snd (addBlock sha_stub json_stub st_genesis blockS)) = 100
   \<and> balances st_self = [(''alice'', 90)]
   \<and> sumBalances st_self = 90"
    by code_simp
  ultimately show ?thesis by (rule conjI)
qed

section \<open>Merkle root: theorems\<close>

lemma length_hashPairs: "length (hashPairs H xs) = length xs div 2"
  by (induction H xs rule: hashPairs.induct) simp_all

lemma pairLoop_hashPairs:
  "even (length hs - i) \<Longrightarrow> pairLoop H hs i acc = acc @ hashPairs H (drop i hs)"
proof (induction H hs i acc rule: pairLoop.induct)
  case (1 H hs i acc)
  show ?case
  proof (cases "i < length hs")
    case False
    then show ?thesis by (subst pairLoop.simps) simp
  next
    case True
    with "1.prems" have two: "i + 1 < length hs" by (cases "length hs - i = 1") auto
    then have d: "drop i hs = hs ! i # hs ! (i + 1) # drop (i + 2) hs"
      by (metis Cons_nth_drop_Suc True Suc_eq_plus1 add_2_eq_Suc')
    have ev: "even (length hs - (i + 2))" using "1.prems" two by auto
    have "pairLoop H hs i acc
            = pairLoop H hs (i + 2) (acc @ [H (js_at hs i @ js_at hs (i + 1))])"
      using True by (subst pairLoop.simps) (simp add: Let_def)
    also have "\<dots> = (acc @ [H (js_at hs i @ js_at hs (i + 1))]) @ hashPairs H (drop (i + 2) hs)"
      using "1.IH" [OF True refl ev] .
    finally show ?thesis using True two by (simp add: d js_at_def)
  qed
qed

lemma padded_eq:
  "hs \<noteq> [] \<Longrightarrow>
   (if length hs mod 2 \<noteq> 0 then hs @ [js_at hs (length hs - 1)] else hs)
     = (if odd (length hs) then hs @ [last hs] else hs)"
  by (simp add: js_at_def last_conv_nth odd_iff_mod_2_eq_one)

lemma merkleLoop_step:
  assumes big: "1 < length hs"
  shows "merkleLoop H hs = merkleLoop H (nextLevel H hs)"
proof -
  from big have ne: "hs \<noteq> []" by auto
  let ?p = "if odd (length hs) then hs @ [last hs] else hs"
  have "even (length ?p - 0)" by simp
  then have pl: "pairLoop H ?p 0 [] = hashPairs H ?p"
    using pairLoop_hashPairs [of ?p 0 H "[]"] by simp
  have "merkleLoop H hs
          = merkleLoop H (pairLoop H (if length hs mod 2 \<noteq> 0
                                       then hs @ [js_at hs (length hs - 1)] else hs) 0 [])"
    by (subst merkleLoop.simps) (simp only: big if_True Let_def)
  also have "\<dots> = merkleLoop H (pairLoop H ?p 0 [])"
    by (simp only: padded_eq [OF ne])
  also have "\<dots> = merkleLoop H (nextLevel H hs)"
    by (simp only: pl nextLevel_def)
  finally show ?thesis .
qed

lemma reduceLevels_single: "reduceLevels H [final] = final"
  by (subst reduceLevels.simps) simp

lemma reduceLevels_step:
  "reduceLevels H (a # b # rest) = reduceLevels H (nextLevel H (a # b # rest))"
  by (subst reduceLevels.simps) simp

lemma merkleLoop_reduceLevels:
  "hs \<noteq> [] \<Longrightarrow> js_at (merkleLoop H hs) 0 = reduceLevels H hs"
proof (induction H hs rule: reduceLevels.induct)
  case (1 H level)
  show ?case
  proof (cases level)
    case Nil
    with "1.prems" show ?thesis by simp
  next
    case (Cons a as)
    show ?thesis
    proof (cases as)
      case Nil
      with Cons show ?thesis
        by (subst merkleLoop.simps) (simp add: js_at_def reduceLevels_single)
    next
      case (Cons b rest)
      with \<open>level = a # as\<close> have lv: "level = a # b # rest" by simp
      then have big: "1 < length level" by simp
      have "length (nextLevel H level) = (length level + (if odd (length level) then 1 else 0)) div 2"
        by (simp add: nextLevel_def length_hashPairs)
      with big have ne: "nextLevel H level \<noteq> []" by (auto split: if_splits)
      have "js_at (merkleLoop H level) 0 = js_at (merkleLoop H (nextLevel H level)) 0"
        using merkleLoop_step [OF big] by simp
      also have "\<dots> = reduceLevels H (nextLevel H level)"
        using "1.IH" [OF \<open>level = a # as\<close> \<open>as = b # rest\<close> ne] .
      also have "\<dots> = reduceLevels H level"
        by (simp only: lv reduceLevels_step)
      finally show ?thesis .
    qed
  qed
qed

text \<open>
  C9. \<open>getMerkleRoot\<close> returns the empty string for an empty transaction list, and for
  every list it returns the root the specification describes: the leaves are the hashes of
  the serialised transactions, each round duplicates the last hash of a level of odd length
  and hashes the concatenation of adjacent pairs, and the single remaining element is the
  result.
\<close>

theorem getMerkleRoot_spec:
  "getMerkleRoot H Jt [] = []
   \<and> getMerkleRoot H Jt txs = merkleRoot_spec H Jt txs
   \<and> getMerkleRoot H Jt [a] = H (Jt a)
   \<and> getMerkleRoot H Jt [a, b] = H (H (Jt a) @ H (Jt b))
   \<and> getMerkleRoot H Jt [a, b, c] = H (H (H (Jt a) @ H (Jt b)) @ H (H (Jt c) @ H (Jt c)))"
proof -
  have eq: "getMerkleRoot H Jt ts = merkleRoot_spec H Jt ts" for ts
    by (simp add: getMerkleRoot_def merkleRoot_spec_def merkleLoop_reduceLevels)
  have s1: "merkleRoot_spec H Jt [a] = H (Jt a)"
    by (simp add: merkleRoot_spec_def reduceLevels_single)
  have s2: "merkleRoot_spec H Jt [a, b] = H (H (Jt a) @ H (Jt b))"
    by (simp add: merkleRoot_spec_def reduceLevels_step reduceLevels_single nextLevel_def)
  have s3: "merkleRoot_spec H Jt [a, b, c]
              = H (H (H (Jt a) @ H (Jt b)) @ H (H (Jt c) @ H (Jt c)))"
    by (simp add: merkleRoot_spec_def reduceLevels_step reduceLevels_single nextLevel_def)
  show ?thesis by (simp add: eq s1 s2 s3) (simp add: merkleRoot_spec_def)
qed

theorem getMerkleRoot_spec_witness:
  "getMerkleRoot sha_stub txid [tx_pay, tx_over, tx_self]
     = sha_stub (sha_stub (sha_stub ''t1'' @ sha_stub ''t2'') @ sha_stub (sha_stub ''t3'' @ sha_stub ''t3''))
   \<and> getMerkleRoot sha_stub txid [tx_pay, tx_over, tx_self]
     = merkleRoot_spec sha_stub txid [tx_pay, tx_over, tx_self]"
proof -
  have i: "txid tx_pay = ''t1''" "txid tx_over = ''t2''" "txid tx_self = ''t3''"
    by (simp_all add: tx_pay_def tx_over_def tx_self_def)
  from getMerkleRoot_spec [where H = sha_stub and Jt = txid and a = tx_pay and b = tx_over
      and c = tx_self and txs = "[tx_pay, tx_over, tx_self]"]
  show ?thesis unfolding i by blast
qed

end
